theory Spec2Isabelle
  imports Complex_Main "HOL-Library.Sublist"
begin

section \<open>String primitives of the host language\<close>

text \<open>
  Strings are lists of characters. \<open>slice\<close> is \<open>String.prototype.slice(a, b)\<close> for
  indices \<open>0 \<le> a, b\<close>: bounds are clamped to the length and the result is empty when
  \<open>b \<le> a\<close>. \<open>indexOf\<close> is \<open>String.prototype.indexOf(c, start)\<close> for a single
  character: the result \<open>-1\<close> is \<open>None\<close>. \<open>str_includes\<close> is
  \<open>String.prototype.includes\<close>.
\<close>

definition slice :: "string \<Rightarrow> nat \<Rightarrow> nat \<Rightarrow> string" where
  "slice text a b = take (b - a) (drop a text)"

definition indexOf :: "string \<Rightarrow> char \<Rightarrow> nat \<Rightarrow> nat option" where
  "indexOf text c start =
     (if c \<in> set (drop start text)
      then Some (start + length (takeWhile (\<lambda>x. x \<noteq> c) (drop start text)))
      else None)"

definition str_includes :: "string \<Rightarrow> char \<Rightarrow> bool" where
  "str_includes text c = (c \<in> set text)"

text \<open>
  \<open>Array.prototype.slice(0, end)\<close> on an integer \<open>end\<close>: a negative \<open>end\<close> counts
  from the back of the array.
\<close>

definition sliceEnd :: "'a list \<Rightarrow> int \<Rightarrow> 'a list" where
  "sliceEnd xs e = (if e < 0 then take (nat (int (length xs) + e)) xs else take (nat e) xs)"

section \<open>Brace scanner\<close>

text \<open>The inner loop of \<open>parseSpintax\<close> that looks for the matching closing brace.\<close>

function scanClose :: "string \<Rightarrow> nat \<Rightarrow> int \<Rightarrow> nat \<times> int" where
  "scanClose text closeBrace depth =
     (if closeBrace < length text \<and> depth > 0
      then let d1 = (if text ! closeBrace = CHR ''{'' then depth + 1 else depth);
               d2 = (if text ! closeBrace = CHR ''}'' then d1 - 1 else d1)
           in scanClose text (closeBrace + 1) d2
      else (closeBrace, depth))"
  by pat_completeness auto
termination
  by (relation "measure (\<lambda>(text, closeBrace, depth). length text - closeBrace)") auto

declare scanClose.simps [simp del]

text \<open>\<open>splitOptions\<close>: the loop state is the options pushed so far, the current
  option and the depth.\<close>

fun splitLoop :: "string \<Rightarrow> string list \<Rightarrow> string \<Rightarrow> int \<Rightarrow> string list \<times> string" where
  "splitLoop [] options current depth = (options, current)"
| "splitLoop (char # rest) options current depth =
     (if char = CHR ''{'' then splitLoop rest options (current @ [char]) (depth + 1)
      else if char = CHR ''}'' then splitLoop rest options (current @ [char]) (depth - 1)
      else if char = CHR ''|'' \<and> depth = 0 then splitLoop rest (options @ [current]) [] depth
      else splitLoop rest options (current @ [char]) depth)"

definition splitOptions :: "string \<Rightarrow> string list" where
  "splitOptions content =
     (case splitLoop content [] [] 0 of
        (options, current) \<Rightarrow> if current \<noteq> [] then options @ [current] else options)"

text \<open>One pass through the body of the outer \<open>while\<close> loop of \<open>parseSpintax\<close>: it
  either leaves the loop (\<open>break\<close>) or goes on with a new cursor.\<close>

datatype scan_step = Break "string list list" | Continue nat "string list list"

definition parseIteration :: "string \<Rightarrow> nat \<Rightarrow> string list list \<Rightarrow> scan_step" where
  "parseIteration text currentIndex segments =
     (case indexOf text CHR ''{'' currentIndex of
        None \<Rightarrow> Break (segments @ [[slice text currentIndex (length text)]])
      | Some openBrace \<Rightarrow>
          (let segments1 = (if openBrace > currentIndex
                            then segments @ [[slice text currentIndex openBrace]]
                            else segments);
               (closeBrace0, depth) = scanClose text (openBrace + 1) 1;
               closeBrace = closeBrace0 - 1
           in if depth \<noteq> 0
              then Continue (openBrace + 1) (segments1 @ [[slice text openBrace (openBrace + 1)]])
              else Continue (closeBrace + 1)
                     (segments1 @ [splitOptions (slice text (openBrace + 1) closeBrace)])))"

lemma scanClose_ge: "i \<le> fst (scanClose s i d)"
proof (induction s i d rule: scanClose.induct)
  case (1 s i d)
  show ?case
  proof (cases "i < length s \<and> d > 0")
    case True
    from "1.IH"[OF True refl refl] True show ?thesis
      by (subst scanClose.simps) (simp add: Let_def del: scanClose.simps)
  next
    case False
    then show ?thesis by (subst scanClose.simps) auto
  qed
qed

lemma parseIteration_progress:
  assumes "parseIteration t currentIndex segments = Continue next segs"
  shows "currentIndex < next"
proof (cases "indexOf t CHR ''{'' currentIndex")
  case None
  with assms show ?thesis by (simp add: parseIteration_def)
next
  case (Some openBrace)
  then have ob: "currentIndex \<le> openBrace"
    by (auto simp: indexOf_def split: if_splits)
  obtain cb d where sc: "scanClose t (openBrace + 1) 1 = (cb, d)"
    by (cases "scanClose t (openBrace + 1) 1")
  from scanClose_ge[of "openBrace + 1" t 1] sc have "openBrace + 1 \<le> cb" by simp
  with assms Some sc ob show ?thesis
    by (auto simp: parseIteration_def Let_def split: if_splits)
qed

function parseLoop :: "string \<Rightarrow> nat \<Rightarrow> string list list \<Rightarrow> string list list" where
  "parseLoop text currentIndex segments =
     (if currentIndex < length text
      then (case parseIteration text currentIndex segments of
              Break segs \<Rightarrow> segs
            | Continue next segs \<Rightarrow> parseLoop text next segs)
      else segments)"
  by pat_completeness auto
termination
  by (relation "measure (\<lambda>(text, currentIndex, segments). length text - currentIndex)")
     (auto dest: parseIteration_progress)

declare parseLoop.simps [simp del]

definition parseSpintax :: "string \<Rightarrow> string list list" where
  "parseSpintax text = parseLoop text 0 []"

text \<open>The outer loop of \<open>parseSpintax\<close> with a bound on the number of passes through its
  body: \<open>None\<close> when the bound is used up before the loop ends.\<close>

primrec parseBounded :: "nat \<Rightarrow> string \<Rightarrow> nat \<Rightarrow> string list list \<Rightarrow> string list list option" where
  "parseBounded 0 text currentIndex segments =
     (if currentIndex < length text then None else Some segments)"
| "parseBounded (Suc passes) text currentIndex segments =
     (if currentIndex < length text
      then (case parseIteration text currentIndex segments of
              Break segs \<Rightarrow> Some segs
            | Continue next segs \<Rightarrow> parseBounded passes text next segs)
      else Some segments)"

section \<open>Validator and option extraction\<close>

fun validateLoop :: "string \<Rightarrow> int \<Rightarrow> bool" where
  "validateLoop [] depth = (depth = 0)"
| "validateLoop (char # rest) depth =
     (let d1 = (if char = CHR ''{'' then depth + 1 else depth);
          d2 = (if char = CHR ''}'' then d1 - 1 else d1)
      in if d2 < 0 then False else validateLoop rest d2)"

definition validate :: "string \<Rightarrow> bool" where
  "validate text = validateLoop text 0"


section \<open>Errors\<close>

text \<open>
  The two exceptions the generation code can raise. \<open>RangeError\<close> is the engine's
  "Maximum call stack size exceeded": the recursive functions below take the number of
  nested re-parsing levels the call stack still has room for, and fail with it when a
  further level is needed and none is left. \<open>TypeError\<close> is a method call on
  \<open>undefined\<close>.
\<close>

datatype error = RangeError | TypeError

section \<open>Combinatorial expander\<close>

text \<open>The three nested \<open>for\<close> loops of \<open>generateAllCombinations\<close>; \<open>proc\<close> stands for
  \<open>processNestedSpintax\<close>.\<close>

fun forOptions :: "(string \<Rightarrow> error + string list) \<Rightarrow> string list \<Rightarrow> string list
    \<Rightarrow> error + string list" where
  "forOptions proc [] restCombinations = Inr []"
| "forOptions proc (option # more) restCombinations =
     (case proc option of
        Inl e \<Rightarrow> Inl e
      | Inr processedOptions \<Rightarrow>
          (case forOptions proc more restCombinations of
             Inl e \<Rightarrow> Inl e
           | Inr results \<Rightarrow>
               Inr (concat (map (\<lambda>processed. map (\<lambda>restCombo. processed @ restCombo)
                                   restCombinations) processedOptions) @ results)))"

fun generateAllWith :: "(string \<Rightarrow> error + string list) \<Rightarrow> string list list
    \<Rightarrow> error + string list" where
  "generateAllWith proc [] = Inr ['''']"
| "generateAllWith proc (first # rest) =
     (case generateAllWith proc rest of
        Inl e \<Rightarrow> Inl e
      | Inr restCombinations \<Rightarrow> forOptions proc first restCombinations)"

definition processNestedWith :: "(string list list \<Rightarrow> error + string list) \<Rightarrow> string
    \<Rightarrow> error + string list" where
  "processNestedWith gen text =
     (if \<not> str_includes text CHR ''{'' then Inr [text] else gen (parseSpintax text))"

primrec generateAllCombinations :: "nat \<Rightarrow> string list list \<Rightarrow> error + string list" where
  "generateAllCombinations 0 segments =
     generateAllWith (processNestedWith (\<lambda>nested. Inl RangeError)) segments"
| "generateAllCombinations (Suc fuel) segments =
     generateAllWith (processNestedWith (generateAllCombinations fuel)) segments"

definition generateSequentialVariations :: "nat \<Rightarrow> string list list \<Rightarrow> int
    \<Rightarrow> error + string list" where
  "generateSequentialVariations fuel segments count =
     (case generateAllCombinations fuel segments of
        Inl e \<Rightarrow> Inl e
      | Inr all \<Rightarrow> Inr (sliceEnd all count))"

section \<open>Combination counter\<close>

text \<open>Counts are natural numbers (the source's numbers are exact on them below \<open>2^53\<close>).
  \<open>rec\<close> stands for the recursive call of \<open>countCombinations\<close>.\<close>

fun countOptions :: "(string list list \<Rightarrow> error + nat) \<Rightarrow> string list \<Rightarrow> nat \<Rightarrow> error + nat" where
  "countOptions rec [] segmentTotal = Inr segmentTotal"
| "countOptions rec (option # more) segmentTotal =
     (if str_includes option CHR ''{''
      then (case rec (parseSpintax option) of
              Inl e \<Rightarrow> Inl e
            | Inr n \<Rightarrow> countOptions rec more (segmentTotal + n))
      else countOptions rec more (segmentTotal + 1))"

fun countSegments :: "(string list list \<Rightarrow> error + nat) \<Rightarrow> string list list \<Rightarrow> nat
    \<Rightarrow> error + nat" where
  "countSegments rec [] totalSoFar = Inr totalSoFar"
| "countSegments rec (segment # more) totalSoFar =
     (case countOptions rec segment 0 of
        Inl e \<Rightarrow> Inl e
      | Inr segmentTotal \<Rightarrow> countSegments rec more (totalSoFar * segmentTotal))"

primrec countCombinations :: "nat \<Rightarrow> string list list \<Rightarrow> error + nat" where
  "countCombinations 0 segments = countSegments (\<lambda>nested. Inl RangeError) segments 1"
| "countCombinations (Suc fuel) segments = countSegments (countCombinations fuel) segments 1"

section \<open>Sampler\<close>

text \<open>
  The random source is a sequence \<open>rnd\<close> of draws and a position \<open>k\<close> in it; every call
  of \<open>Math.random\<close> takes the next draw. \<open>randomIndex\<close> is
  \<open>Math.floor(Math.random() * n)\<close>: an index below \<open>n\<close> when \<open>n > 0\<close>, and \<open>0\<close> when
  \<open>n = 0\<close>.
\<close>

definition randomIndex :: "nat \<Rightarrow> nat \<Rightarrow> nat" where
  "randomIndex draw n = (if n = 0 then 0 else draw mod n)"

text \<open>The \<open>for (const segment of segments)\<close> loop that builds one variation; \<open>rec\<close>
  stands for the nested call \<open>generateRandomVariations(nestedSegments, 1)\<close>. Reading
  \<open>segment[randomIndex]\<close> out of range gives \<open>undefined\<close>, and \<open>option.includes\<close>
  then throws.\<close>

fun buildVariation :: "(string list list \<Rightarrow> nat \<Rightarrow> error + string list \<times> nat) \<Rightarrow> (nat \<Rightarrow> nat)
    \<Rightarrow> string list list \<Rightarrow> string \<Rightarrow> nat \<Rightarrow> error + string \<times> nat" where
  "buildVariation rec rnd [] variation k = Inr (variation, k)"
| "buildVariation rec rnd (segment # more) variation k =
     (let idx = randomIndex (rnd k) (length segment) in
      if idx \<ge> length segment then Inl TypeError
      else
        (let option = segment ! idx in
         if str_includes option CHR ''{''
         then (case rec (parseSpintax option) (k + 1) of
                 Inl e \<Rightarrow> Inl e
               | Inr (nestedVariations, k') \<Rightarrow>
                   (let option' = (case nestedVariations of
                                     [] \<Rightarrow> option
                                   | v # vs \<Rightarrow> if v = [] then option else v)
                    in buildVariation rec rnd more (variation @ option') k'))
         else buildVariation rec rnd more (variation @ option) (k + 1)))"

text \<open>The \<open>while\<close> loop of \<open>generateRandomVariations\<close>.\<close>

function attemptLoop :: "(string list list \<Rightarrow> nat \<Rightarrow> error + string list \<times> nat) \<Rightarrow> (nat \<Rightarrow> nat)
    \<Rightarrow> string list list \<Rightarrow> int \<Rightarrow> int \<Rightarrow> string list \<Rightarrow> string set \<Rightarrow> int \<Rightarrow> nat
    \<Rightarrow> error + string list \<times> nat" where
  "attemptLoop rec rnd segments count maxAttempts results seen attempts k =
     (if int (length results) < count \<and> attempts < maxAttempts
      then (case buildVariation rec rnd segments [] k of
              Inl e \<Rightarrow> Inl e
            | Inr (variation, k') \<Rightarrow>
                if variation \<notin> seen
                then attemptLoop rec rnd segments count maxAttempts
                       (results @ [variation]) (insert variation seen) (attempts + 1) k'
                else attemptLoop rec rnd segments count maxAttempts
                       results seen (attempts + 1) k')
      else Inr (results, k))"
  by pat_completeness auto
termination
  by (relation "measure (\<lambda>(rec, rnd, segments, count, maxAttempts, results, seen, attempts, k).
                   nat (maxAttempts - attempts))") auto

declare attemptLoop.simps [simp del]

definition sampleWith :: "(string list list \<Rightarrow> nat \<Rightarrow> error + string list \<times> nat) \<Rightarrow> (nat \<Rightarrow> nat)
    \<Rightarrow> string list list \<Rightarrow> int \<Rightarrow> nat \<Rightarrow> error + string list \<times> nat" where
  "sampleWith rec rnd segments count k =
     attemptLoop rec rnd segments count (count * 10) [] {} 0 k"

primrec generateRandomVariations :: "nat \<Rightarrow> (nat \<Rightarrow> nat) \<Rightarrow> string list list \<Rightarrow> int \<Rightarrow> nat
    \<Rightarrow> error + string list \<times> nat" where
  "generateRandomVariations 0 rnd segments count k =
     sampleWith (\<lambda>nested k'. Inl RangeError) rnd segments count k"
| "generateRandomVariations (Suc fuel) rnd segments count k =
     sampleWith (\<lambda>nested k'. generateRandomVariations fuel rnd nested 1 k') rnd segments count k"

section \<open>Public entry points\<close>

text \<open>\<open>averageOptionsPerSpin\<close> is the exact quotient (the source's is its floating-point
  rounding).\<close>

record SpintaxStats =
  totalCombinations :: nat
  spinElements :: nat
  averageOptionsPerSpin :: rat

definition analyze :: "nat \<Rightarrow> string \<Rightarrow> error + SpintaxStats" where
  "analyze fuel text =
     (let segments = parseSpintax text;
          spinElements = length (filter (\<lambda>s. length s > 1) segments);
          totalOptions = foldl (\<lambda>acc s. acc + length s) 0 segments
      in case countCombinations fuel segments of
           Inl e \<Rightarrow> Inl e
         | Inr combinations \<Rightarrow>
             Inr \<lparr> totalCombinations = combinations,
                   spinElements = spinElements,
                   averageOptionsPerSpin =
                     (if spinElements > 0
                      then of_nat totalOptions / of_nat (length segments)
                      else 0) \<rparr>)"

definition spin :: "nat \<Rightarrow> (nat \<Rightarrow> nat) \<Rightarrow> string \<Rightarrow> error + string" where
  "spin fuel rnd text =
     (case generateRandomVariations fuel rnd (parseSpintax text) 1 0 of
        Inl e \<Rightarrow> Inl e
      | Inr (variations, k) \<Rightarrow>
          Inr (case variations of [] \<Rightarrow> text | v # vs \<Rightarrow> if v = [] then text else v))"

datatype Mode = ModeRandom | ModeAll | ModeSequential

record GenerateOptions =
  count :: "int option"
  mode :: "Mode option"

text \<open>The statistics of a result are those of \<open>analyze\<close> extended by
  \<open>generatedCount\<close>.\<close>

record GeneratedStats = SpintaxStats +
  generatedCount :: nat

record SpintaxResult =
  variations :: "string list"
  stats :: GeneratedStats

definition generate :: "nat \<Rightarrow> (nat \<Rightarrow> nat) \<Rightarrow> string \<Rightarrow> GenerateOptions \<Rightarrow> error + SpintaxResult" where
  "generate fuel rnd text options =
     (let cnt = (case count options of None \<Rightarrow> 10 | Some c \<Rightarrow> c);
          md = (case mode options of None \<Rightarrow> ModeRandom | Some m \<Rightarrow> m);
          segments = parseSpintax text
      in case analyze fuel text of
           Inl e \<Rightarrow> Inl e
         | Inr st \<Rightarrow>
             (case (case md of
                      ModeAll \<Rightarrow>
                        (let maxAll = min (int (totalCombinations st)) 1000
                         in case generateAllCombinations fuel segments of
                              Inl e \<Rightarrow> Inl e
                            | Inr all \<Rightarrow> Inr (sliceEnd all maxAll))
                    | ModeSequential \<Rightarrow> generateSequentialVariations fuel segments (min cnt 1000)
                    | ModeRandom \<Rightarrow>
                        (case generateRandomVariations fuel rnd segments (min cnt 100) 0 of
                           Inl e \<Rightarrow> Inl e
                         | Inr (vs, k) \<Rightarrow> Inr vs)) of
                Inl e \<Rightarrow> Inl e
              | Inr vs \<Rightarrow>
                  Inr \<lparr> variations = vs,
                        stats = \<lparr> totalCombinations = totalCombinations st,
                                  spinElements = spinElements st,
                                  averageOptionsPerSpin = averageOptionsPerSpin st,
                                  generatedCount = length vs \<rparr> \<rparr>))"

section \<open>Brace balance, in the words of the specification\<close>

text \<open>The running depth counter after reading a string: \<open>{\<close> increments it, \<open>}\<close>
  decrements it. A string is balanced when the counter is never negative after any prefix
  and is zero after the whole string.\<close>

definition braceDelta :: "char \<Rightarrow> int" where
  "braceDelta c = (if c = CHR ''{'' then 1 else if c = CHR ''}'' then -1 else 0)"

definition depthAfter :: "string \<Rightarrow> int" where
  "depthAfter s = sum_list (map braceDelta s)"

definition bracesBalanced :: "string \<Rightarrow> bool" where
  "bracesBalanced t = ((\<forall>n\<in>{..length t}. 0 \<le> depthAfter (take n t)) \<and> depthAfter t = 0)"

text \<open>An opening brace at position \<open>p\<close> has no matching closing brace when the depth
  counter started at it never returns to zero before the end of the string.\<close>

definition unmatchedOpen :: "string \<Rightarrow> nat \<Rightarrow> bool" where
  "unmatchedOpen t p = (p < length t \<and> t ! p = CHR ''{''
      \<and> (\<forall>j\<in>{p<..length t}. 0 < depthAfter (slice t p j)))"

text \<open>A string has no unmatched opening brace when every \<open>{\<close> in it is closed
  before the end of the string.\<close>

definition noUnmatchedOpen :: "string \<Rightarrow> bool" where
  "noUnmatchedOpen t = (\<forall>p<length t. \<not> unmatchedOpen t p)"

text \<open>Auxiliary notions for the proofs: the prefix half of balance, and the shape of the
  segments the scanner produces on a string without unmatched opening braces.\<close>

definition prefixesNonneg :: "string \<Rightarrow> bool" where
  "prefixesNonneg s = (\<forall>n\<le>length s. 0 \<le> depthAfter (take n s))"

definition okSegment :: "string \<Rightarrow> string list \<Rightarrow> bool" where
  "okSegment t s = ((\<exists>lit. s = [lit] \<and> CHR ''{'' \<notin> set lit)
     \<or> (\<exists>c. s = splitOptions c \<and> bracesBalanced c \<and> length c < length t))"

section \<open>The validator\<close>

lemma validateLoop_step:
  "validateLoop (c # cs) d = (0 \<le> d + braceDelta c \<and> validateLoop cs (d + braceDelta c))"
  by (auto simp: braceDelta_def Let_def)

lemma all_le_Suc_split: "(\<forall>n\<le>Suc k. P n) = (P 0 \<and> (\<forall>m\<le>k. P (Suc m)))"
  by (metis Suc_le_mono le0 not0_implies_Suc)

lemma validateLoop_iff:
  "0 \<le> d \<Longrightarrow> validateLoop t d =
     ((\<forall>n\<le>length t. 0 \<le> d + depthAfter (take n t)) \<and> d + depthAfter t = 0)"
proof (induction t arbitrary: d)
  case Nil
  then show ?case by (simp add: depthAfter_def)
next
  case (Cons c cs)
  show ?case
  proof (cases "0 \<le> d + braceDelta c")
    case True
    have "validateLoop (c # cs) d = validateLoop cs (d + braceDelta c)"
      using True by (simp only: validateLoop_step) simp
    also have "\<dots> = ((\<forall>n\<le>length cs. 0 \<le> d + braceDelta c + depthAfter (take n cs))
                      \<and> d + braceDelta c + depthAfter cs = 0)"
      by (rule Cons.IH[OF True])
    also have "\<dots> = ((\<forall>n\<le>length (c # cs). 0 \<le> d + depthAfter (take n (c # cs)))
                      \<and> d + depthAfter (c # cs) = 0)"
      using Cons.prems unfolding length_Cons all_le_Suc_split
      by (simp add: depthAfter_def add.assoc)
    finally show ?thesis .
  next
    case False
    then have "\<not> (\<forall>n\<le>length (c # cs). 0 \<le> d + depthAfter (take n (c # cs)))"
      by (auto simp: depthAfter_def intro!: exI[of _ "Suc 0"])
    with False show ?thesis by (simp only: validateLoop_step) simp
  qed
qed

lemma validate_balanced: "validate t = bracesBalanced t"
  by (simp add: validate_def bracesBalanced_def validateLoop_iff Ball_def)

text \<open>
  Claim C6. For every input string, \<open>validate\<close> returns true exactly when the braces are
  balanced: the running depth counter is never negative after any prefix of the string
  and is zero at its end.
\<close>

theorem validate_iff_balanced:
  "validate t \<longleftrightarrow> (\<forall>n\<in>{..length t}. 0 \<le> depthAfter (take n t)) \<and> depthAfter t = 0"
  using validate_balanced[of t] by (simp add: bracesBalanced_def)

theorem validate_iff_balanced_witness:
  "validate ''{a{b}}c'' \<and> depthAfter ''{a{b}}c'' = 0 \<and> 0 \<le> depthAfter (take 2 ''{a{b}}c'')"
proof -
  have v: "validate ''{a{b}}c''" by (simp add: validate_def)
  have m: "(2::nat) \<in> {..length ''{a{b}}c''}" by simp
  from v validate_iff_balanced[of "''{a{b}}c''"] m show ?thesis by blast
qed

section \<open>Option extraction\<close>



section \<open>The brace scanner\<close>

lemma depthAfter_append: "depthAfter (xs @ ys) = depthAfter xs + depthAfter ys"
  by (simp add: depthAfter_def)

lemma depthAfter_Nil: "depthAfter [] = 0"
  by (simp add: depthAfter_def)

lemma depthAfter_Cons: "depthAfter (c # cs) = braceDelta c + depthAfter cs"
  by (simp add: depthAfter_def)

lemma slice_same: "slice t i i = []"
  by (simp add: slice_def)

lemma slice_Cons: "i < j \<Longrightarrow> i < length t \<Longrightarrow> slice t i j = t ! i # slice t (Suc i) j"
proof -
  assume a: "i < j" "i < length t"
  then obtain m where m: "j - i = Suc m" by (cases "j - i") auto
  then have m': "j - Suc i = m" by simp
  from a have "drop i t = t ! i # drop (Suc i) t" by (simp add: Cons_nth_drop_Suc)
  then show ?thesis by (simp add: slice_def m m')
qed

lemma slice_snoc: "i \<le> j \<Longrightarrow> j < length t \<Longrightarrow> slice t i (Suc j) = slice t i j @ [t ! j]"
proof -
  assume a: "i \<le> j" "j < length t"
  then have "Suc j - i = Suc (j - i)" by simp
  moreover have "j - i < length (drop i t)" using a by simp
  ultimately show ?thesis using a by (simp add: slice_def take_Suc_conv_app_nth)
qed

lemma length_slice: "length (slice t i j) = min (j - i) (length t - i)"
  by (simp add: slice_def)

lemma scanClose_spec:
  assumes "scanClose t i d = (cb, d')" and "i \<le> length t"
  shows "i \<le> cb \<and> cb \<le> length t \<and> d' = d + depthAfter (slice t i cb)
         \<and> (\<forall>j. i \<le> j \<and> j < cb \<longrightarrow> 0 < d + depthAfter (slice t i j))
         \<and> (d' \<le> 0 \<or> cb = length t)"
  using assms
proof (induction t i d rule: scanClose.induct)
  case (1 t i d)
  show ?case
  proof (cases "i < length t \<and> d > 0")
    case False
    with "1.prems" have "cb = i" "d' = d"
      by (subst (asm) scanClose.simps, simp)+
    with False "1.prems"(2) show ?thesis
      by (auto simp: slice_same depthAfter_Nil)
  next
    case True
    define d2 where "d2 = d + braceDelta (t ! i)"
    have d2: "(if t ! i = CHR ''}'' then (if t ! i = CHR ''{'' then d + 1 else d) - 1
               else (if t ! i = CHR ''{'' then d + 1 else d)) = d2"
      by (simp add: d2_def braceDelta_def)
    from "1.prems"(1) True have rec: "scanClose t (i + 1) d2 = (cb, d')"
      by (subst (asm) scanClose.simps) (simp add: Let_def d2 del: scanClose.simps)
    have IH: "i + 1 \<le> cb \<and> cb \<le> length t \<and> d' = d2 + depthAfter (slice t (i + 1) cb)
         \<and> (\<forall>j. i + 1 \<le> j \<and> j < cb \<longrightarrow> 0 < d2 + depthAfter (slice t (i + 1) j))
         \<and> (d' \<le> 0 \<or> cb = length t)"
    proof -
      have le: "i + 1 \<le> length t" using True by simp
      from "1.IH"[OF True refl refl, unfolded d2, OF rec le] show ?thesis .
    qed
    have sl: "slice t i j = t ! i # slice t (Suc i) j" if "i < j" for j
      using that True by (simp add: slice_Cons)
    have "d' = d + depthAfter (slice t i cb)"
      using IH sl[of cb] by (simp add: depthAfter_Cons d2_def)
    moreover have "0 < d + depthAfter (slice t i j)" if "i \<le> j" "j < cb" for j
    proof (cases "j = i")
      case True
      then show ?thesis using \<open>i < length t \<and> 0 < d\<close> by (simp add: slice_same depthAfter_Nil)
    next
      case False
      with that have "i + 1 \<le> j" by simp
      with IH that have "0 < d2 + depthAfter (slice t (i + 1) j)" by blast
      then show ?thesis using sl[of j] False that by (simp add: depthAfter_Cons d2_def)
    qed
    ultimately show ?thesis using IH by auto
  qed
qed

lemma scanClose_nonneg: "0 \<le> d \<Longrightarrow> 0 \<le> snd (scanClose t i d)"
proof (induction t i d rule: scanClose.induct)
  case (1 t i d)
  show ?case
  proof (cases "i < length t \<and> d > 0")
    case False
    with "1.prems" show ?thesis by (subst scanClose.simps) auto
  next
    case True
    let ?d1 = "if t ! i = CHR ''{'' then d + 1 else d"
    let ?d2 = "if t ! i = CHR ''}'' then ?d1 - 1 else ?d1"
    have "0 \<le> ?d2" using True by auto
    from "1.IH"[OF True refl refl this] True show ?thesis
      by (subst scanClose.simps) (simp add: Let_def)
  qed
qed

lemma takeWhile_neq_hit:
  "c \<in> set xs \<Longrightarrow> length (takeWhile (\<lambda>x. x \<noteq> c) xs) < length xs
     \<and> xs ! length (takeWhile (\<lambda>x. x \<noteq> c) xs) = c"
  by (induction xs) auto

lemma takeWhile_neq_set: "c \<notin> set (takeWhile (\<lambda>x. x \<noteq> c) xs)"
  by (induction xs) auto

lemma indexOf_Some:
  assumes "indexOf t c cur = Some ob"
  shows "cur \<le> ob" and "ob < length t" and "t ! ob = c" and "c \<notin> set (slice t cur ob)"
proof -
  let ?rest = "drop cur t"
  let ?n = "length (takeWhile (\<lambda>x. x \<noteq> c) ?rest)"
  from assms have mem: "c \<in> set ?rest" and ob: "ob = cur + ?n"
    by (auto simp: indexOf_def split: if_splits)
  show "cur \<le> ob" using ob by simp
  from takeWhile_neq_hit[OF mem] have lt: "?n < length ?rest" and hit: "?rest ! ?n = c"
    by blast+
  from lt show "ob < length t" using ob by simp
  from hit lt show "t ! ob = c" using ob by (simp add: add.commute)
  have "slice t cur ob = take ?n ?rest"
    using ob by (simp add: slice_def)
  also have "\<dots> = takeWhile (\<lambda>x. x \<noteq> c) ?rest"
    by (rule takeWhile_eq_take[symmetric])
  finally show "c \<notin> set (slice t cur ob)"
    by (simp only: takeWhile_neq_set not_False_eq_True)
qed

lemma indexOf_None: "indexOf t c cur = None \<Longrightarrow> c \<notin> set (drop cur t)"
  by (auto simp: indexOf_def split: if_splits)

lemma slice_open:
  assumes "p < length t" "t ! p = CHR ''{''" "p < j"
  shows "depthAfter (slice t p j) = 1 + depthAfter (slice t (Suc p) j)"
  using assms by (simp add: slice_Cons depthAfter_Cons braceDelta_def)

lemma scanClose_unmatched:
  assumes ob: "ob < length t" "t ! ob = CHR ''{''"
    and sc: "scanClose t (ob + 1) 1 = (cb, d)"
  shows "d \<noteq> 0 \<longleftrightarrow> (\<forall>j\<in>{ob<..length t}. 0 < depthAfter (slice t ob j))"
proof -
  from ob have le: "ob + 1 \<le> length t" by simp
  note spec = scanClose_spec[OF sc le]
  from scanClose_nonneg[of 1 t "ob + 1"] sc have nn: "0 \<le> d" by simp
  show ?thesis
  proof
    assume "d \<noteq> 0"
    with nn spec have pos: "0 < d" and cb: "cb = length t" by auto
    show "\<forall>j\<in>{ob<..length t}. 0 < depthAfter (slice t ob j)"
    proof
      fix j assume j: "j \<in> {ob<..length t}"
      then have oj: "ob < j" by simp
      show "0 < depthAfter (slice t ob j)"
      proof (cases "j < cb")
        case True
        with spec oj have "0 < 1 + depthAfter (slice t (ob + 1) j)" by simp
        then show ?thesis using slice_open[OF ob oj] by simp
      next
        case False
        with j cb have "j = cb" by simp
        with spec pos have "0 < 1 + depthAfter (slice t (ob + 1) j)" by simp
        then show ?thesis using slice_open[OF ob oj] by simp
      qed
    qed
  next
    assume un: "\<forall>j\<in>{ob<..length t}. 0 < depthAfter (slice t ob j)"
    from spec have "cb \<in> {ob<..length t}" by simp
    with un have "0 < depthAfter (slice t ob cb)" by blast
    moreover from spec have "ob < cb" by simp
    ultimately have "0 < 1 + depthAfter (slice t (ob + 1) cb)"
      using slice_open[OF ob, of cb] by simp
    with spec show "d \<noteq> 0" by simp
  qed
qed

lemma slice_one: "p < length t \<Longrightarrow> slice t p (Suc p) = [t ! p]"
  by (simp add: slice_Cons slice_same)

lemma parseIteration_unmatched:
  assumes "indexOf t CHR ''{'' cur = Some ob"
    and "snd (scanClose t (ob + 1) 1) \<noteq> 0"
  shows "parseIteration t cur segs =
           Continue (ob + 1) (segs @ (if cur < ob then [[slice t cur ob]] else []) @ [[''{'']])"
proof -
  note io = indexOf_Some[OF assms(1)]
  obtain cb d where sc: "scanClose t (ob + 1) 1 = (cb, d)"
    by (cases "scanClose t (ob + 1) 1")
  with assms(2) have "d \<noteq> 0" by simp
  then show ?thesis
    using assms(1) sc io(2,3) by (simp add: parseIteration_def Let_def slice_one)
qed

lemma parseIteration_matched:
  assumes "indexOf t CHR ''{'' cur = Some ob"
    and "scanClose t (ob + 1) 1 = (cb, 0)"
  shows "parseIteration t cur segs =
           Continue cb (segs @ (if cur < ob then [[slice t cur ob]] else [])
                          @ [splitOptions (slice t (ob + 1) (cb - 1))])"
    and "ob + 2 \<le> cb" and "cb \<le> length t"
proof -
  note io = indexOf_Some[OF assms(1)]
  from io have le: "ob + 1 \<le> length t" by simp
  note spec = scanClose_spec[OF assms(2) le]
  have "cb \<noteq> ob + 1"
  proof
    assume "cb = ob + 1"
    with spec show False by (simp add: slice_same depthAfter_Nil)
  qed
  with spec show "ob + 2 \<le> cb" by simp
  then have "cb - 1 + 1 = cb" by simp
  then show "parseIteration t cur segs =
           Continue cb (segs @ (if cur < ob then [[slice t cur ob]] else [])
                          @ [splitOptions (slice t (ob + 1) (cb - 1))])"
    using assms by (simp add: parseIteration_def Let_def)
  from spec show "cb \<le> length t" by simp
qed

lemma parseIteration_bounds:
  assumes "cur < length t" and "parseIteration t cur segs = Continue nxt segs'"
  shows "cur < nxt \<and> nxt \<le> length t"
proof (cases "indexOf t CHR ''{'' cur")
  case None
  with assms show ?thesis by (simp add: parseIteration_def)
next
  case (Some ob)
  note io = indexOf_Some[OF Some]
  obtain cb d where sc: "scanClose t (ob + 1) 1 = (cb, d)"
    by (cases "scanClose t (ob + 1) 1")
  show ?thesis
  proof (cases "d = 0")
    case True
    with sc have sc0: "scanClose t (ob + 1) 1 = (cb, 0)" by simp
    from parseIteration_matched[OF Some sc0] assms(2) io show ?thesis by auto
  next
    case False
    with sc have "snd (scanClose t (ob + 1) 1) \<noteq> 0" by simp
    from parseIteration_unmatched[OF Some this] assms(2) io show ?thesis by auto
  qed
qed

lemma parseBounded_enough:
  "length t - cur \<le> n \<Longrightarrow> parseBounded n t cur segs = Some (parseLoop t cur segs)"
proof (induction n arbitrary: cur segs)
  case 0
  then show ?case by (subst parseLoop.simps) simp
next
  case (Suc n)
  show ?case
  proof (cases "cur < length t")
    case False
    then show ?thesis by (subst parseLoop.simps) simp
  next
    case True
    show ?thesis
    proof (cases "parseIteration t cur segs")
      case (Break s)
      with True show ?thesis by (subst parseLoop.simps) simp
    next
      case (Continue nxt s)
      from parseIteration_bounds[OF True Continue] Suc.prems have "length t - nxt \<le> n" by linarith
      from Suc.IH[OF this] True Continue show ?thesis by (subst parseLoop.simps) simp
    qed
  qed
qed

lemma parseBounded_length: "parseBounded (length t) t 0 [] = Some (parseSpintax t)"
  by (simp add: parseBounded_enough parseSpintax_def)

text \<open>
  Claim C10. Every pass through the body of the scanning loop that does not leave the loop
  moves the cursor strictly forward and not beyond the end of the input, so the loop ends
  within as many passes as the input has characters, with the result of \<open>parseSpintax\<close>.
\<close>

theorem parse_cursor_advances:
  "(\<forall>cur segs nxt segs'. cur < length t \<and> parseIteration t cur segs = Continue nxt segs'
        \<longrightarrow> cur < nxt \<and> nxt \<le> length t)
   \<and> parseBounded (length t) t 0 [] = Some (parseSpintax t)"
  using parseIteration_bounds parseBounded_length by blast

theorem parse_cursor_advances_witness:
  "parseIteration ''a{b}c'' 0 [] = Continue 4 [[''a''], [''b'']] \<and> (0::nat) < 4 \<and> 4 \<le> length ''a{b}c''
   \<and> parseBounded (length ''a{b}c'') ''a{b}c'' 0 [] = Some (parseSpintax ''a{b}c'')"
proof -
  have it: "parseIteration ''a{b}c'' 0 [] = Continue 4 [[''a''], [''b'']]" by code_simp
  have len: "(0::nat) < length ''a{b}c''" by simp
  from parse_cursor_advances[of "''a{b}c''"] it len show ?thesis by blast
qed

section \<open>Counting and expansion agree\<close>

lemma forOptions_rest:
  "forOptions proc opts rc =
     map_sum id (\<lambda>ps. concat (map (\<lambda>p. map (\<lambda>r. p @ r) rc) ps)) (forOptions proc opts [[]])"
proof (induction opts)
  case Nil
  show ?case by simp
next
  case (Cons opt more)
  show ?case
  proof (cases "proc opt")
    case (Inl e)
    then show ?thesis by simp
  next
    case (Inr ps)
    show ?thesis
    proof (cases "forOptions proc more [[]]")
      case (Inl e)
      with Inr Cons.IH show ?thesis by simp
    next
      case r: (Inr res)
      have "map (\<lambda>processed. [processed]) ps = map (\<lambda>p. [p]) ps" by simp
      with Inr r Cons.IH show ?thesis by (simp add: concat_map_singleton)
    qed
  qed
qed

lemma length_concat_const:
  "length (concat (map (\<lambda>p. map (f p) rc) ps)) = length ps * length rc"
  by (induction ps) auto

lemma countOptions_forOptions:
  assumes R: "\<And>x. R x = map_sum id length (G x)"
  shows "countOptions R opts acc =
           map_sum id (\<lambda>ps. acc + length ps) (forOptions (processNestedWith G) opts [[]])"
proof (induction opts arbitrary: acc)
  case Nil
  show ?case by simp
next
  case (Cons opt more)
  show ?case
  proof (cases "str_includes opt CHR ''{''")
    case False
    then have p: "processNestedWith G opt = Inr [opt]" by (simp add: processNestedWith_def)
    show ?thesis
    proof (cases "forOptions (processNestedWith G) more [[]]")
      case (Inl e)
      with False p Cons.IH[of "acc + 1"] show ?thesis by simp
    next
      case (Inr res)
      with False p Cons.IH[of "acc + 1"] show ?thesis by simp
    qed
  next
    case True
    then have p: "processNestedWith G opt = G (parseSpintax opt)" by (simp add: processNestedWith_def)
    show ?thesis
    proof (cases "G (parseSpintax opt)")
      case (Inl e)
      with True p R[of "parseSpintax opt"] show ?thesis by simp
    next
      case g: (Inr ps)
      show ?thesis
      proof (cases "forOptions (processNestedWith G) more [[]]")
        case (Inl e)
        with True p g R[of "parseSpintax opt"] Cons.IH[of "acc + length ps"] show ?thesis by simp
      next
        case (Inr res)
        with True p g R[of "parseSpintax opt"] Cons.IH[of "acc + length ps"] show ?thesis
          by (simp add: length_concat_const)
      qed
    qed
  qed
qed

lemma processNestedWith_error:
  assumes "\<And>x e. G x = Inl e \<Longrightarrow> e = RangeError"
  shows "processNestedWith G opt = Inl e \<Longrightarrow> e = RangeError"
  using assms by (auto simp: processNestedWith_def split: if_splits)

lemma forOptions_error:
  assumes "\<And>x e. proc x = Inl e \<Longrightarrow> e = RangeError"
  shows "forOptions proc opts rc = Inl e \<Longrightarrow> e = RangeError"
  using assms by (induction opts) (auto split: sum.splits)

lemma generateAllWith_error:
  assumes pe: "\<And>x e. proc x = Inl e \<Longrightarrow> e = RangeError"
  shows "generateAllWith proc segs = Inl e \<Longrightarrow> e = RangeError"
proof (induction segs arbitrary: e)
  case Nil
  then show ?case by simp
next
  case (Cons first rest)
  show ?case
  proof (cases "generateAllWith proc rest")
    case (Inl e')
    with Cons.prems have "e = e'" by simp
    with Cons.IH[OF Inl] show ?thesis by simp
  next
    case (Inr rc)
    with Cons.prems have "forOptions proc first rc = Inl e" by simp
    then show ?thesis using pe by (rule forOptions_error[rotated])
  qed
qed

lemma countSegments_generateAllWith:
  assumes R: "\<And>x. R x = map_sum id length (G x)"
    and E: "\<And>x e. G x = Inl e \<Longrightarrow> e = RangeError"
  shows "countSegments R segs tot =
           map_sum id (\<lambda>res. tot * length res) (generateAllWith (processNestedWith G) segs)"
proof (induction segs arbitrary: tot)
  case Nil
  show ?case by simp
next
  case (Cons first rest)
  let ?proc = "processNestedWith G"
  have pe: "\<And>x e. ?proc x = Inl e \<Longrightarrow> e = RangeError"
    using E by (rule processNestedWith_error)
  note co = countOptions_forOptions[of R G first 0, OF R]
  show ?case
  proof (cases "forOptions ?proc first [[]]")
    case (Inl e)
    then have e: "e = RangeError" using pe by (rule forOptions_error[rotated])
    have cnt: "countSegments R (first # rest) tot = Inl RangeError"
      using co Inl e by simp
    have "generateAllWith ?proc (first # rest) = Inl RangeError"
    proof (cases "generateAllWith ?proc rest")
      case l: (Inl e')
      then have "e' = RangeError" using pe by (rule generateAllWith_error[rotated])
      with l show ?thesis by simp
    next
      case (Inr rc)
      then show ?thesis using Inl e forOptions_rest[of ?proc first rc] by simp
    qed
    with cnt show ?thesis by simp
  next
    case (Inr ps)
    then have c1: "countOptions R first 0 = Inr (length ps)" using co by simp
    show ?thesis
    proof (cases "generateAllWith ?proc rest")
      case l: (Inl e')
      with c1 Cons.IH[of "tot * length ps"] show ?thesis by simp
    next
      case r: (Inr rc)
      with c1 Inr Cons.IH[of "tot * length ps"] forOptions_rest[of ?proc first rc]
      show ?thesis by (simp add: length_concat_const)
    qed
  qed
qed

lemma generateAllCombinations_error:
  "generateAllCombinations fuel segs = Inl e \<Longrightarrow> e = RangeError"
proof (induction fuel arbitrary: segs e)
  case 0
  then show ?case
    by (auto dest!: generateAllWith_error[rotated] processNestedWith_error[rotated])
next
  case (Suc fuel)
  from Suc.prems show ?case
    by (auto dest!: generateAllWith_error[rotated] processNestedWith_error[rotated] dest: Suc.IH)
qed

lemma countCombinations_length:
  "countCombinations fuel segs = map_sum id length (generateAllCombinations fuel segs)"
proof (induction fuel arbitrary: segs)
  case 0
  show ?case
    using countSegments_generateAllWith[of "\<lambda>nested. Inl RangeError" "\<lambda>nested. Inl RangeError" segs 1]
    by (simp add: id_def)
next
  case (Suc fuel)
  show ?case
    using countSegments_generateAllWith[of "countCombinations fuel" "generateAllCombinations fuel" segs 1,
            OF Suc.IH generateAllCombinations_error]
    by (simp add: id_def)
qed

section \<open>Segments of a string without unmatched opening braces\<close>

lemma bracesBalanced_alt: "bracesBalanced s = (prefixesNonneg s \<and> depthAfter s = 0)"
  by (simp add: bracesBalanced_def prefixesNonneg_def Ball_def)

lemma prefixesNonneg_Nil: "prefixesNonneg []"
  by (simp add: prefixesNonneg_def depthAfter_Nil)

lemma prefixesNonneg_snoc:
  assumes "prefixesNonneg s" and "0 \<le> depthAfter (s @ [c])"
  shows "prefixesNonneg (s @ [c])"
  unfolding prefixesNonneg_def
proof (intro allI impI)
  fix n assume n: "n \<le> length (s @ [c])"
  show "0 \<le> depthAfter (take n (s @ [c]))"
  proof (cases "n \<le> length s")
    case True
    with assms(1) show ?thesis by (simp add: prefixesNonneg_def)
  next
    case False
    with n have "n = Suc (length s)" by simp
    with assms(2) show ?thesis by simp
  qed
qed

lemma take_slice: "n \<le> b - a \<Longrightarrow> take n (slice t a b) = slice t a (a + n)"
  by (simp add: slice_def min_def)

lemma slice_to_end: "slice t a (length t) = drop a t"
  by (simp add: slice_def)

lemma braceDelta_ge: "- 1 \<le> braceDelta c"
  by (simp add: braceDelta_def)

lemma content_balanced:
  assumes sc: "scanClose t (ob + 1) 1 = (cb, 0)" and le: "ob + 1 \<le> length t"
  shows "bracesBalanced (slice t (ob + 1) (cb - 1))" and "ob + 2 \<le> cb" and "cb \<le> length t"
proof -
  note spec = scanClose_spec[OF sc le]
  have ne: "cb \<noteq> ob + 1"
  proof
    assume "cb = ob + 1"
    with spec show False by (simp add: slice_same depthAfter_Nil)
  qed
  with spec show cb2: "ob + 2 \<le> cb" by simp
  from spec show cbl: "cb \<le> length t" by simp
  let ?c = "slice t (ob + 1) (cb - 1)"
  have pos: "0 \<le> depthAfter (slice t (ob + 1) j)" if "ob + 1 \<le> j" "j < cb" for j
  proof -
    from spec that have "0 < 1 + depthAfter (slice t (ob + 1) j)" by blast
    then show ?thesis by simp
  qed
  have len: "length ?c = cb - 1 - (ob + 1)"
    using cb2 cbl by (simp add: length_slice)
  have pre: "prefixesNonneg ?c"
    unfolding prefixesNonneg_def
  proof (intro allI impI)
    fix n assume "n \<le> length ?c"
    with len have n: "n \<le> cb - 1 - (ob + 1)" by simp
    then have "take n ?c = slice t (ob + 1) (ob + 1 + n)" by (rule take_slice)
    moreover have "0 \<le> depthAfter (slice t (ob + 1) (ob + 1 + n))"
      using n cb2 by (intro pos) auto
    ultimately show "0 \<le> depthAfter (take n ?c)" by simp
  qed
  have last: "slice t (ob + 1) cb = ?c @ [t ! (cb - 1)]"
    using slice_snoc[of "ob + 1" "cb - 1" t] cb2 cbl by simp
  have "depthAfter (slice t (ob + 1) cb) = depthAfter ?c + braceDelta (t ! (cb - 1))"
    by (subst last) (simp add: depthAfter_append depthAfter_Cons depthAfter_Nil)
  moreover have "1 + depthAfter (slice t (ob + 1) cb) = 0" using spec by simp
  ultimately have "depthAfter ?c + braceDelta (t ! (cb - 1)) = - 1" by linarith
  moreover have "0 \<le> depthAfter ?c" using cb2 by (intro pos) auto
  ultimately have "depthAfter ?c = 0" using braceDelta_ge[of "t ! (cb - 1)"] by linarith
  with pre show "bracesBalanced ?c" by (simp add: bracesBalanced_alt)
qed

lemma splitLoop_balanced:
  assumes "prefixesNonneg cur" and "d = depthAfter cur" and "validateLoop rest d" and "0 \<le> d"
    and "\<forall>opt\<in>set opts. bracesBalanced opt \<and> length opt \<le> N"
    and "length cur + length rest \<le> N"
  shows "case splitLoop rest opts cur d of
           (opts', cur') \<Rightarrow> (\<forall>opt\<in>set opts'. bracesBalanced opt \<and> length opt \<le> N)
                              \<and> bracesBalanced cur' \<and> length cur' \<le> N"
  using assms
proof (induction rest arbitrary: opts cur d)
  case Nil
  then show ?case by (simp add: bracesBalanced_alt)
next
  case (Cons c rest)
  from Cons.prems(3) have step: "0 \<le> d + braceDelta c" "validateLoop rest (d + braceDelta c)"
    by (simp_all only: validateLoop_step)
  have app: "depthAfter (cur @ [c]) = d + braceDelta c"
    using Cons.prems(2) by (simp add: depthAfter_append depthAfter_Cons depthAfter_Nil)
  have pre: "prefixesNonneg (cur @ [c])"
    using Cons.prems(1) step(1) app by (intro prefixesNonneg_snoc) simp_all
  have len: "length (cur @ [c]) + length rest \<le> N"
    using Cons.prems(6) by simp
  show ?case
  proof (cases "c = CHR ''|'' \<and> d = 0")
    case True
    then have bd: "braceDelta c = 0" by (simp add: braceDelta_def)
    from True Cons.prems(1,2) have bal: "bracesBalanced cur" by (simp add: bracesBalanced_alt)
    have opts': "\<forall>opt\<in>set (opts @ [cur]). bracesBalanced opt \<and> length opt \<le> N"
      using Cons.prems(5,6) bal by auto
    have "case splitLoop rest (opts @ [cur]) [] 0 of
           (opts', cur') \<Rightarrow> (\<forall>opt\<in>set opts'. bracesBalanced opt \<and> length opt \<le> N)
                              \<and> bracesBalanced cur' \<and> length cur' \<le> N"
      using step(2) True bd Cons.prems(6)
      by (intro Cons.IH[OF prefixesNonneg_Nil _ _ _ opts']) (simp_all add: depthAfter_Nil)
    with True show ?thesis by simp
  next
    case False
    have "case splitLoop rest opts (cur @ [c]) (d + braceDelta c) of
           (opts', cur') \<Rightarrow> (\<forall>opt\<in>set opts'. bracesBalanced opt \<and> length opt \<le> N)
                              \<and> bracesBalanced cur' \<and> length cur' \<le> N"
      using app by (intro Cons.IH[OF pre _ step(2) step(1) Cons.prems(5) len]) simp
    moreover have "splitLoop (c # rest) opts cur d = splitLoop rest opts (cur @ [c]) (d + braceDelta c)"
      using False by (auto simp: braceDelta_def)
    ultimately show ?thesis by simp
  qed
qed

lemma splitOptions_balanced:
  assumes "bracesBalanced content" and "opt \<in> set (splitOptions content)"
  shows "bracesBalanced opt \<and> length opt \<le> length content"
proof -
  from assms(1) have v: "validateLoop content 0"
    using validate_balanced[of content] by (simp add: validate_def)
  obtain opts cur where sl: "splitLoop content [] [] 0 = (opts, cur)"
    by (cases "splitLoop content [] [] 0")
  from splitLoop_balanced[of "[]" 0 content "[]" "length content", OF prefixesNonneg_Nil _ v] sl
  have "(\<forall>opt\<in>set opts. bracesBalanced opt \<and> length opt \<le> length content)
          \<and> bracesBalanced cur \<and> length cur \<le> length content"
    by (simp add: depthAfter_Nil)
  with assms(2) sl show ?thesis
    by (auto simp: splitOptions_def split: if_splits)
qed

lemma balanced_noUnmatchedOpen:
  assumes "bracesBalanced t"
  shows "noUnmatchedOpen t"
  unfolding noUnmatchedOpen_def
proof (intro allI impI notI)
  fix p assume p: "p < length t" and un: "unmatchedOpen t p"
  from un p have "0 < depthAfter (slice t p (length t))"
    by (simp add: unmatchedOpen_def)
  then have "0 < depthAfter (drop p t)" by (simp add: slice_to_end)
  moreover from assms p have "0 \<le> depthAfter (take p t)"
    by (simp add: bracesBalanced_def)
  moreover have "depthAfter t = depthAfter (take p t) + depthAfter (drop p t)"
    using depthAfter_append[of "take p t" "drop p t"] by simp
  moreover from assms have "depthAfter t = 0" by (simp add: bracesBalanced_def)
  ultimately show False by linarith
qed

lemma parseIteration_ok:
  assumes nu: "noUnmatchedOpen t" and ok: "\<forall>s\<in>set segs. okSegment t s"
  shows "case parseIteration t cur segs of
           Break segs' \<Rightarrow> \<forall>s\<in>set segs'. okSegment t s
         | Continue nxt segs' \<Rightarrow> \<forall>s\<in>set segs'. okSegment t s"
proof (cases "indexOf t CHR ''{'' cur")
  case None
  from indexOf_None[OF None] have "okSegment t [slice t cur (length t)]"
    by (simp add: okSegment_def slice_to_end)
  with ok None show ?thesis by (simp add: parseIteration_def)
next
  case (Some ob)
  note io = indexOf_Some[OF Some]
  from io(4) have lit: "okSegment t [slice t cur ob]" by (simp add: okSegment_def)
  with ok have ok1: "\<forall>s\<in>set (segs @ (if cur < ob then [[slice t cur ob]] else [])). okSegment t s"
    by auto
  obtain cb d where sc: "scanClose t (ob + 1) 1 = (cb, d)"
    by (cases "scanClose t (ob + 1) 1")
  have d0: "d = 0"
  proof (rule ccontr)
    assume "d \<noteq> 0"
    with scanClose_unmatched[OF io(2,3) sc] io(2,3) have "unmatchedOpen t ob"
      by (simp add: unmatchedOpen_def)
    with nu io(2) show False by (simp add: noUnmatchedOpen_def)
  qed
  with sc have sc0: "scanClose t (ob + 1) 1 = (cb, 0)" by simp
  from io(2) have le: "ob + 1 \<le> length t" by simp
  note cbal = content_balanced[OF sc0 le]
  have "length (slice t (ob + 1) (cb - 1)) < length t"
    using cbal(2,3) by (simp add: length_slice)
  with cbal(1) have "okSegment t (splitOptions (slice t (ob + 1) (cb - 1)))"
    by (auto simp: okSegment_def)
  with ok1 parseIteration_matched(1)[OF Some sc0, of segs] show ?thesis by simp
qed

lemma parseLoop_ok:
  "noUnmatchedOpen t \<Longrightarrow> \<forall>s\<in>set segs. okSegment t s
     \<Longrightarrow> \<forall>s\<in>set (parseLoop t cur segs). okSegment t s"
proof (induction t cur segs rule: parseLoop.induct)
  case (1 t cur segs)
  show ?case
  proof (cases "cur < length t")
    case False
    with "1.prems" show ?thesis by (subst parseLoop.simps) simp
  next
    case True
    note it = parseIteration_ok[OF "1.prems", of cur]
    show ?thesis
    proof (cases "parseIteration t cur segs")
      case (Break segs')
      with it True show ?thesis by (subst parseLoop.simps) simp
    next
      case (Continue nxt segs')
      with it have "\<forall>s\<in>set segs'. okSegment t s" by simp
      from "1.IH"[OF True Continue "1.prems"(1) this] True Continue
      show ?thesis by (subst parseLoop.simps) simp
    qed
  qed
qed

lemma parseSpintax_ok:
  "noUnmatchedOpen t \<Longrightarrow> s \<in> set (parseSpintax t) \<Longrightarrow> okSegment t s"
  using parseLoop_ok[of t "[]" 0] by (simp add: parseSpintax_def)

lemma forOptions_returns:
  assumes "\<forall>opt\<in>set opts. \<exists>r. proc opt = Inr r"
  shows "\<exists>res. forOptions proc opts rc = Inr res"
  using assms
proof (induction opts)
  case Nil
  show ?case by simp
next
  case (Cons opt more)
  then obtain r res where "proc opt = Inr r" "forOptions proc more rc = Inr res" by auto
  then show ?case by simp
qed

lemma generateAllWith_returns:
  assumes "\<forall>s\<in>set segs. \<forall>opt\<in>set s. \<exists>r. proc opt = Inr r"
  shows "\<exists>res. generateAllWith proc segs = Inr res"
  using assms
proof (induction segs)
  case Nil
  show ?case by simp
next
  case (Cons first rest)
  then obtain rc where rc: "generateAllWith proc rest = Inr rc" by auto
  from Cons.prems have "\<forall>opt\<in>set first. \<exists>r. proc opt = Inr r" by simp
  from forOptions_returns[OF this, of rc] rc show ?case by simp
qed

lemma expand_returns:
  "noUnmatchedOpen t \<Longrightarrow> length t \<le> fuel
     \<Longrightarrow> \<exists>res. generateAllCombinations fuel (parseSpintax t) = Inr res"
proof (induction fuel arbitrary: t)
  case 0
  have "\<exists>r. processNestedWith (\<lambda>nested. Inl RangeError) opt = Inr r"
    if "s \<in> set (parseSpintax t)" "opt \<in> set s" for s opt
  proof -
    from parseSpintax_ok[OF "0.prems"(1) that(1)] "0.prems"(2) that(2)
    have "CHR ''{'' \<notin> set opt" by (auto simp: okSegment_def)
    then show ?thesis by (simp add: processNestedWith_def str_includes_def)
  qed
  then show ?case by (auto intro!: generateAllWith_returns)
next
  case (Suc fuel)
  have "\<exists>r. processNestedWith (generateAllCombinations fuel) opt = Inr r"
    if "s \<in> set (parseSpintax t)" "opt \<in> set s" for s opt
  proof (cases "CHR ''{'' \<in> set opt")
    case False
    then show ?thesis by (simp add: processNestedWith_def str_includes_def)
  next
    case True
    with parseSpintax_ok[OF Suc.prems(1) that(1)] that(2)
    obtain c where c: "s = splitOptions c" "bracesBalanced c" "length c < length t"
      by (auto simp: okSegment_def)
    from splitOptions_balanced[OF c(2)] that(2) c(1)
    have "bracesBalanced opt" "length opt \<le> length c" by auto
    with c(3) Suc.prems(2) have "noUnmatchedOpen opt" "length opt \<le> fuel"
      by (auto intro: balanced_noUnmatchedOpen)
    from Suc.IH[OF this] True show ?thesis
      by (simp add: processNestedWith_def str_includes_def)
  qed
  then show ?case by (auto intro!: generateAllWith_returns)
qed

section \<open>Generation, statistics and their failing inputs\<close>

lemma parse_open: "parseSpintax ''{'' = [[''{'']]"
  by code_simp

lemma expand_open_diverges:
  "generateAllCombinations fuel [[''{'']] = Inl RangeError"
  by (induction fuel) (simp_all add: processNestedWith_def str_includes_def parse_open)

lemma sample_open_diverges:
  "0 < n \<Longrightarrow> generateRandomVariations fuel rnd [[''{'']] n k = Inl RangeError"
proof (induction fuel arbitrary: n k)
  case 0
  then show ?case
    by (simp add: sampleWith_def attemptLoop.simps[of _ _ _ _ _ "[]"] randomIndex_def
                  str_includes_def)
next
  case (Suc fuel)
  from Suc.IH[of 1] Suc.prems show ?case
    by (simp add: sampleWith_def attemptLoop.simps[of _ _ _ _ _ "[]"] randomIndex_def
                  str_includes_def parse_open)
qed

lemma parse_empty_group: "parseSpintax ''{}'' = [[]]"
  by code_simp

lemma sample_empty_group:
  "generateRandomVariations fuel rnd [[]] 1 k = Inl TypeError"
  by (cases fuel)
     (simp_all add: sampleWith_def attemptLoop.simps[of _ _ _ _ _ "[]"] randomIndex_def)

text \<open>
  Claim C3 says that no public operation raises on any input string, and that the sampler
  never reads an alternative out of range. On the empty group \<open>{}\<close> the sampler
  reads alternative \<open>0\<close> of a segment without alternatives and \<open>spin\<close> ends with
  a \<open>TypeError\<close>, whatever the random draws and the room on the call stack. On the
  unmatched brace \<open>{\<close> the literal segment \<open>{\<close> is parsed again at every level of
  the recursion, so \<open>spin\<close> and \<open>analyze\<close> end with a \<open>RangeError\<close> however much
  room the call stack has.
\<close>

theorem spin_raises:
  "spin fuel rnd ''{}'' = Inl TypeError \<and> spin fuel rnd ''{'' = Inl RangeError
   \<and> analyze fuel ''{'' = Inl RangeError"
  using sample_open_diverges[of 1 fuel rnd 0] expand_open_diverges[of fuel]
  by (simp add: spin_def analyze_def parse_open parse_empty_group sample_empty_group
                countCombinations_length Let_def)

text \<open>
  Claim C1 states an equality of two results for every input string. On the unmatched
  brace \<open>{\<close> neither result exists: both \<open>generateAllCombinations\<close> and
  \<open>countCombinations\<close> on the parsed segments end with a \<open>RangeError\<close>, however much
  room the call stack has. (Where either of them returns, so does the other, and the
  count is the length of the list: \<open>countCombinations_length\<close>; both return on every
  string without an unmatched opening brace: \<open>expand_returns\<close>.)
\<close>

theorem count_expand_unmatched_open:
  "generateAllCombinations fuel (parseSpintax ''{'') = Inl RangeError
   \<and> countCombinations fuel (parseSpintax ''{'') = Inl RangeError"
  by (simp add: parse_open expand_open_diverges countCombinations_length)

lemma parse_empty_alt: "parseSpintax ''{|a}'' = [['''', ''a'']]"
  by code_simp

lemma sample_empty_alt:
  "sampleWith rec (\<lambda>k. 0) [['''', ''a'']] 1 0 = Inr ([''''], 1)"
  by (simp add: sampleWith_def attemptLoop.simps[of _ _ _ _ _ "[]"]
        attemptLoop.simps[of _ _ _ _ _ "[[]]"] randomIndex_def str_includes_def)

text \<open>
  Claim C2 says that on a non-empty balanced template \<open>spin\<close> returns a member of the
  full expansion. The template \<open>{|a}\<close> is non-empty and balanced, its expansion is the
  empty string and \<open>a\<close>; when the sampler picks the first alternative the variation is
  the empty string, which \<open>spin\<close> takes for a missing variation, and it returns the
  template \<open>{|a}\<close> itself, which is not in the expansion.
\<close>

theorem spin_returns_template:
  "validate ''{|a}'' \<and> ''{|a}'' \<noteq> []
   \<and> spin fuel (\<lambda>k. 0) ''{|a}'' = Inr ''{|a}''
   \<and> generateAllCombinations fuel (parseSpintax ''{|a}'') = Inr ['''', ''a'']
   \<and> ''{|a}'' \<notin> set ['''', ''a'']"
proof -
  have v: "validate ''{|a}''" by (simp add: validate_def)
  have s: "generateRandomVariations fuel (\<lambda>k. 0) [['''', ''a'']] 1 0 = Inr ([''''], 1)"
    by (cases fuel) (simp_all add: sample_empty_alt)
  have g: "generateAllCombinations fuel [['''', ''a'']] = Inr ['''', ''a'']"
    by (cases fuel) (simp_all add: processNestedWith_def str_includes_def)
  from v s g show ?thesis by (simp add: spin_def parse_empty_alt)
qed

lemma parse_plain: "parseSpintax ''abc'' = [[''abc'']]"
  by code_simp

lemma analyze_plain:
  "analyze 0 ''abc'' = Inr \<lparr> totalCombinations = 1, spinElements = 0, averageOptionsPerSpin = 0 \<rparr>"
  by (simp add: analyze_def parse_plain str_includes_def)

text \<open>
  Claim C4 as stated fails on plain text: \<open>abc\<close> parses to one segment with one
  alternative, so the quotient of alternatives by segments is \<open>1\<close> and there is a
  segment, yet \<open>averageOptionsPerSpin\<close> is \<open>0\<close>.
\<close>

theorem average_guard_counterexample:
  "parseSpintax ''abc'' \<noteq> []
   \<and> map_sum id averageOptionsPerSpin (analyze 0 ''abc'') = Inr 0
   \<and> (of_nat (sum_list (map length (parseSpintax ''abc'')))
        / of_nat (length (parseSpintax ''abc'')) :: rat) = 1"
  by (simp add: analyze_plain parse_plain)



lemma parse_AB: "parseSpintax ''{A|B}'' = [[''A'', ''B'']]"
  by code_simp

text \<open>
  Claim C7 as stated fails for a negative count: with count \<open>-1\<close> the template
  \<open>{A|B}\<close> yields all entries but the last, not the first \<open>min(-1, 1000)\<close> entries.
\<close>

theorem sequential_negative_count_counterexample:
  "generateAllCombinations 0 (parseSpintax ''{A|B}'') = Inr [''A'', ''B'']
   \<and> map_sum id variations
        (generate 0 (\<lambda>k. 0) ''{A|B}'' \<lparr> count = Some (- 1), mode = Some ModeSequential \<rparr>)
       = Inr [''A'']
   \<and> take (nat (min (- 1) 1000)) [''A'', ''B''] = []"
  by (simp add: generate_def analyze_def parse_AB str_includes_def processNestedWith_def
                generateSequentialVariations_def sliceEnd_def Let_def)

lemma both_return:
  assumes "noUnmatchedOpen t" and "length t \<le> fuel"
  shows "\<exists>all. generateAllCombinations fuel (parseSpintax t) = Inr all
           \<and> countCombinations fuel (parseSpintax t) = Inr (length all)"
proof -
  from expand_returns[OF assms] obtain all
    where "generateAllCombinations fuel (parseSpintax t) = Inr all" by blast
  then show ?thesis by (simp add: countCombinations_length)
qed

lemma foldl_length_sum: "foldl (\<lambda>acc s. acc + length s) a segs = a + sum_list (map length segs)"
  by (induction segs arbitrary: a) simp_all

text \<open>
  Claim C4, amended. For every input string without an unmatched opening brace (and a call
  stack with room for its nesting), \<open>analyze\<close> returns, and \<open>averageOptionsPerSpin\<close>
  is the total number of alternatives of all segments divided by the number of segments
  when at least one segment has more than one alternative, and \<open>0\<close> otherwise.
\<close>

theorem average_guarded_by_spin_elements:
  assumes "noUnmatchedOpen t" and "length t \<le> fuel"
  shows "\<exists>st. analyze fuel t = Inr st
           \<and> averageOptionsPerSpin st =
               (if \<exists>s\<in>set (parseSpintax t). 1 < length s
                then of_nat (sum_list (map length (parseSpintax t)))
                       / of_nat (length (parseSpintax t))
                else 0)"
proof -
  from both_return[OF assms] obtain all :: "string list"
    where "countCombinations fuel (parseSpintax t) = Inr (length all)" by blast
  then show ?thesis
    by (auto simp: analyze_def Let_def foldl_length_sum filter_empty_conv)
qed

lemma validate_noUnmatchedOpen: "validate t \<Longrightarrow> noUnmatchedOpen t"
  by (simp add: validate_balanced balanced_noUnmatchedOpen)

lemma parse_two_groups: "parseSpintax ''{A|B} {1|2|3}'' = [[''A'', ''B''], ['' ''], [''1'', ''2'', ''3'']]"
  by code_simp

theorem average_guarded_by_spin_elements_witness:
  "map_sum id averageOptionsPerSpin (analyze 13 ''{A|B} {1|2|3}'') = Inr 2"
proof -
  have v: "noUnmatchedOpen ''{A|B} {1|2|3}''"
    by (rule validate_noUnmatchedOpen) (simp add: validate_def)
  have l: "length ''{A|B} {1|2|3}'' \<le> 13" by simp
  from average_guarded_by_spin_elements[OF v l] show ?thesis
    by (auto simp: parse_two_groups)
qed



lemma forOptions_flat:
  assumes "\<forall>opt\<in>set opts. CHR ''{'' \<notin> set opt"
  shows "forOptions (processNestedWith G) opts rc
           = Inr (concat (map (\<lambda>opt. map (\<lambda>r. opt @ r) rc) opts))"
  using assms by (induction opts) (simp_all add: processNestedWith_def str_includes_def)

lemma generateAllWith_flat:
  assumes "\<forall>s\<in>set segs. \<forall>opt\<in>set s. CHR ''{'' \<notin> set opt"
  shows "generateAllWith (processNestedWith G) segs = Inr (map concat (product_lists segs))"
  using assms
proof (induction segs)
  case Nil
  show ?case by simp
next
  case (Cons first rest)
  then have rest: "generateAllWith (processNestedWith G) rest = Inr (map concat (product_lists rest))"
    and first: "\<forall>opt\<in>set first. CHR ''{'' \<notin> set opt" by simp_all
  show ?case
    by (simp add: rest forOptions_flat[OF first] map_concat comp_def)
qed

lemma generateAllCombinations_flat:
  assumes "\<forall>s\<in>set segs. \<forall>opt\<in>set s. CHR ''{'' \<notin> set opt"
  shows "generateAllCombinations fuel segs = Inr (map concat (product_lists segs))"
  using generateAllWith_flat[OF assms] by (cases fuel) simp_all

text \<open>
  Claim C7, amended. For every input string without an unmatched opening brace (and a call
  stack with room for its nesting) and every count \<open>N \<ge> 0\<close>, \<open>generate\<close> in mode
  \<open>sequential\<close> returns the first \<open>min(N, 1000)\<close> entries of
  \<open>generateAllCombinations\<close> on the parsed segments. When no alternative contains a
  brace, that list is the concatenations of the choices of one alternative per segment in
  lexicographic order of the choices, the last segment varying fastest.
\<close>

theorem sequential_prefix:
  assumes "noUnmatchedOpen t" and "length t \<le> fuel" and "0 \<le> N"
  shows "\<exists>all r. generateAllCombinations fuel (parseSpintax t) = Inr all
           \<and> generate fuel rnd t \<lparr> count = Some N, mode = Some ModeSequential \<rparr> = Inr r
           \<and> variations r = take (nat (min N 1000)) all
           \<and> ((\<forall>s\<in>set (parseSpintax t). \<forall>opt\<in>set s. CHR ''{'' \<notin> set opt)
                \<longrightarrow> all = map concat (product_lists (parseSpintax t)))"
proof -
  from both_return[OF assms(1,2)] obtain all
    where g: "generateAllCombinations fuel (parseSpintax t) = Inr all"
      and n: "countCombinations fuel (parseSpintax t) = Inr (length all)" by blast
  have "sliceEnd all (min N 1000) = take (nat (min N 1000)) all"
    using assms(3) by (simp add: sliceEnd_def)
  moreover have "all = map concat (product_lists (parseSpintax t))"
    if "\<forall>s\<in>set (parseSpintax t). \<forall>opt\<in>set s. CHR ''{'' \<notin> set opt"
    using generateAllCombinations_flat[OF that, of fuel] g by simp
  ultimately show ?thesis using g n
    by (simp add: generate_def analyze_def Let_def generateSequentialVariations_def)
qed

theorem sequential_prefix_witness:
  "map_sum id variations
     (generate 15 (\<lambda>k. 0) ''{A|B|C} {1|2|3}'' \<lparr> count = Some 5, mode = Some ModeSequential \<rparr>)
     = Inr [''A 1'', ''A 2'', ''A 3'', ''B 1'', ''B 2'']"
proof -
  have v: "noUnmatchedOpen ''{A|B|C} {1|2|3}''"
    by (rule validate_noUnmatchedOpen) (simp add: validate_def)
  have l: "length ''{A|B|C} {1|2|3}'' \<le> 15" by simp
  have g: "generateAllCombinations 15 (parseSpintax ''{A|B|C} {1|2|3}'')
             = Inr [''A 1'', ''A 2'', ''A 3'', ''B 1'', ''B 2'', ''B 3'', ''C 1'', ''C 2'', ''C 3'']"
    by code_simp
  from sequential_prefix[OF v l, of 5 "\<lambda>k. 0"] g show ?thesis
    by auto
qed

section \<open>Unmatched opening braces\<close>

lemma slice_append:
  assumes "i \<le> j" and "j \<le> k"
  shows "slice t i k = slice t i j @ slice t j k"
proof -
  from assms have k: "k - i = (j - i) + (k - j)" by simp
  from assms have d: "drop (j - i) (drop i t) = drop j t" by simp
  show ?thesis unfolding slice_def k take_add d ..
qed

lemma slice_nth_mem:
  assumes "cur \<le> q" and "q < ob" and "ob \<le> length t"
  shows "t ! q \<in> set (slice t cur ob)"
proof -
  have "q - cur < length (slice t cur ob)" using assms by (simp add: length_slice)
  moreover have "slice t cur ob ! (q - cur) = t ! q" using assms by (simp add: slice_def)
  ultimately show ?thesis by (metis nth_mem)
qed

lemma indexOf_first:
  assumes "indexOf t c cur = Some ob" and "cur \<le> q" and "q < length t" and "t ! q = c"
  shows "ob \<le> q"
proof (rule ccontr)
  assume "\<not> ob \<le> q"
  then have "q < ob" by simp
  from slice_nth_mem[OF assms(2) this] indexOf_Some(2)[OF assms(1)]
  have "t ! q \<in> set (slice t cur ob)" by simp
  with indexOf_Some(4)[OF assms(1)] assms(4) show False by simp
qed

lemma indexOf_exists:
  assumes "cur \<le> q" and "q < length t" and "t ! q = c"
  shows "\<exists>ob. indexOf t c cur = Some ob"
proof -
  have "drop cur t ! (q - cur) = c" using assms by simp
  moreover have "q - cur < length (drop cur t)" using assms by simp
  ultimately have "c \<in> set (drop cur t)" by (metis nth_mem)
  then show ?thesis by (simp add: indexOf_def)
qed

lemma parseLoop_keeps: "set segs \<subseteq> set (parseLoop t cur segs)"
proof (induction t cur segs rule: parseLoop.induct)
  case (1 t cur segs)
  show ?case
  proof (cases "cur < length t")
    case False
    then show ?thesis by (subst parseLoop.simps) simp
  next
    case True
    show ?thesis
    proof (cases "parseIteration t cur segs")
      case (Break segs')
      then have "set segs \<subseteq> set segs'"
        by (auto simp: parseIteration_def Let_def split: option.splits prod.splits if_splits)
      with True Break show ?thesis by (subst parseLoop.simps) simp
    next
      case (Continue nxt segs')
      then have "set segs \<subseteq> set segs'"
        by (auto simp: parseIteration_def Let_def split: option.splits prod.splits if_splits)
      with "1.IH"[OF True Continue] True Continue show ?thesis
        by (subst parseLoop.simps) auto
    qed
  qed
qed

lemma parseLoop_emits_open:
  "unmatchedOpen t p \<Longrightarrow> cur \<le> p \<Longrightarrow> [''{''] \<in> set (parseLoop t cur segs)"
proof (induction t cur segs rule: parseLoop.induct)
  case (1 t cur segs)
  from "1.prems"(1) have p: "p < length t" "t ! p = CHR ''{''"
    and un: "\<forall>j\<in>{p<..length t}. 0 < depthAfter (slice t p j)"
    by (simp_all add: unmatchedOpen_def)
  from p "1.prems"(2) have lt: "cur < length t" by simp
  from indexOf_exists[OF "1.prems"(2) p] obtain ob
    where io: "indexOf t CHR ''{'' cur = Some ob" by blast
  note ios = indexOf_Some[OF io]
  from indexOf_first[OF io "1.prems"(2) p] have obp: "ob \<le> p" .
  obtain cb d where sc: "scanClose t (ob + 1) 1 = (cb, d)"
    by (cases "scanClose t (ob + 1) 1")
  show ?case
  proof (cases "d = 0")
    case False
    with sc have "snd (scanClose t (ob + 1) 1) \<noteq> 0" by simp
    note it = parseIteration_unmatched[OF io this, of segs]
    show ?thesis
    proof (cases "ob = p")
      case True
      have "[''{''] \<in> set (segs @ (if cur < ob then [[slice t cur ob]] else []) @ [[''{'']])"
        by simp
      with parseLoop_keeps[of "segs @ (if cur < ob then [[slice t cur ob]] else []) @ [[''{'']]" t "ob + 1"]
      have "[''{''] \<in> set (parseLoop t (ob + 1)
               (segs @ (if cur < ob then [[slice t cur ob]] else []) @ [[''{'']]))" by blast
      with lt it show ?thesis by (subst parseLoop.simps) simp
    next
      case False
      with obp have "ob + 1 \<le> p" by simp
      from "1.IH"[OF lt it "1.prems"(1) this] lt it show ?thesis
        by (subst parseLoop.simps) simp
    qed
  next
    case True
    with sc have sc0: "scanClose t (ob + 1) 1 = (cb, 0)" by simp
    note it = parseIteration_matched(1)[OF io sc0, of segs]
    from ios(2) have le: "ob + 1 \<le> length t" by simp
    note spec = scanClose_spec[OF sc0 le]
    from scanClose_unmatched[OF ios(2,3) sc] True
    have "\<not> (\<forall>j\<in>{ob<..length t}. 0 < depthAfter (slice t ob j))" by simp
    with un have "ob \<noteq> p" by blast
    with obp have obp': "ob + 1 \<le> p" by simp
    have "cb \<le> p"
    proof (rule ccontr)
      assume "\<not> cb \<le> p"
      then have pcb: "p < cb" by simp
      with spec obp' have a: "0 < 1 + depthAfter (slice t (ob + 1) p)" by blast
      from spec have b: "1 + depthAfter (slice t (ob + 1) cb) = 0" by simp
      from pcb obp' have "slice t (ob + 1) cb = slice t (ob + 1) p @ slice t p cb"
        by (intro slice_append) simp_all
      then have c: "depthAfter (slice t (ob + 1) cb)
                      = depthAfter (slice t (ob + 1) p) + depthAfter (slice t p cb)"
        by (simp add: depthAfter_append)
      from pcb spec have "cb \<in> {p<..length t}" by simp
      with un have "0 < depthAfter (slice t p cb)" by blast
      with a b c show False by linarith
    qed
    from "1.IH"[OF lt it "1.prems"(1) this] lt it show ?thesis
      by (subst parseLoop.simps) simp
  qed
qed

text \<open>
  Claim C8. Let the opening brace at position \<open>p\<close> have no matching closing brace
  before the end of the string (the depth counter started at it stays positive up to the
  end). Whenever it is the next opening brace from the cursor, the pass of the scanning
  loop emits the literal text before it, if any, then the brace itself as a one-character
  literal segment, and continues with the cursor one position past the brace; the parse
  result contains that one-character literal segment. No pass of the loop can fail, and
  the loop ends with the parse result on every input string.
\<close>

theorem unmatched_open_degrades:
  assumes "unmatchedOpen t p"
  shows "(\<forall>currentIndex segments. indexOf t CHR ''{'' currentIndex = Some p \<longrightarrow>
            parseIteration t currentIndex segments =
              Continue (p + 1)
                (segments @ (if currentIndex < p then [[slice t currentIndex p]] else [])
                   @ [[''{'']]))
         \<and> [''{''] \<in> set (parseSpintax t)
         \<and> parseBounded (length t) t 0 [] = Some (parseSpintax t)"
proof -
  from assms have p: "p < length t" "t ! p = CHR ''{''"
    and un: "\<forall>j\<in>{p<..length t}. 0 < depthAfter (slice t p j)"
    by (simp_all add: unmatchedOpen_def)
  obtain cb d where sc: "scanClose t (p + 1) 1 = (cb, d)"
    by (cases "scanClose t (p + 1) 1")
  from scanClose_unmatched[OF p sc] un have "d \<noteq> 0" by simp
  with sc have d: "snd (scanClose t (p + 1) 1) \<noteq> 0" by simp
  have "parseIteration t currentIndex segments =
              Continue (p + 1)
                (segments @ (if currentIndex < p then [[slice t currentIndex p]] else [])
                   @ [[''{'']])"
    if "indexOf t CHR ''{'' currentIndex = Some p" for currentIndex segments
    using that d by (rule parseIteration_unmatched)
  moreover have "[''{''] \<in> set (parseSpintax t)"
    using parseLoop_emits_open[OF assms, of 0 "[]"] by (simp add: parseSpintax_def)
  ultimately show ?thesis using parseBounded_length by blast
qed

theorem unmatched_open_degrades_witness:
  "parseIteration ''a{b'' 0 [] = Continue 2 [[''a''], [''{'']]
   \<and> [''{''] \<in> set (parseSpintax ''a{b'')
   \<and> parseBounded (length ''a{b'') ''a{b'' 0 [] = Some (parseSpintax ''a{b'')"
proof -
  have i: "indexOf ''a{b'' CHR ''{'' 0 = Some 1" by (simp add: indexOf_def)
  have "0 < depthAfter (slice ''a{b'' 1 j)" if "j \<in> {1<..length ''a{b''}" for j
  proof -
    from that have "j = 2 \<or> j = 3" by auto
    then show ?thesis by (auto simp: slice_def depthAfter_def braceDelta_def)
  qed
  then have u: "unmatchedOpen ''a{b'' 1" by (simp add: unmatchedOpen_def)
  note th = unmatched_open_degrades[OF u]
  from th i have "parseIteration ''a{b'' 0 [] =
      Continue (1 + 1) ([] @ (if (0::nat) < 1 then [[slice ''a{b'' 0 1]] else []) @ [[''{'']])"
    by blast
  then have a: "parseIteration ''a{b'' 0 [] = Continue 2 [[''a''], [''{'']]"
    by (simp add: slice_def)
  from th have b: "[''{''] \<in> set (parseSpintax ''a{b'')"
    and c: "parseBounded (length ''a{b'') ''a{b'' 0 [] = Some (parseSpintax ''a{b'')"
    by blast+
  from a b c show ?thesis by blast
qed

end
